theory Spec2Isabelle
  imports Complex_Main
begin

section \<open>The multi-armed bandit simulation of main.py\<close>

text \<open>
  The theory embeds \<^verbatim>\<open>src/main.py\<close>: the environment \<^verbatim>\<open>BernoulliBandit\<close>, the
  loop \<^verbatim>\<open>Solver\<close> and its three subclasses \<^verbatim>\<open>EpsilonGreedy\<close>,
  \<^verbatim>\<open>DecayingEpsilonGreedy\<close> and \<^verbatim>\<open>UCB\<close>.

  Conventions of the embedding.
  \<^item> A numpy \<^verbatim>\<open>float64\<close> is a \<open>real\<close>: arithmetic is exact, rounding is not modelled.
    The pull counters (\<^verbatim>\<open>np.zeros(K)\<close>, only ever incremented by one) are natural numbers.
  \<^item> The process-wide generator of \<^verbatim>\<open>np.random\<close> is an explicit state \<open>rng\<close>, threaded
    through every function that draws from it.
  \<^item> A raised exception is the \<open>Inl\<close> side of a sum; numpy's own failures (\<^verbatim>\<open>argmax\<close> of
    an empty array, a negative \<^verbatim>\<open>size\<close>, an index out of bounds) are written out.
\<close>

subsection \<open>Exceptions and the numpy primitives used by the program\<close>

datatype error = ValueError | IndexError | NotImplementedError

text \<open>
  The generator: the floats and the raw integers it will hand out, and how many draws
  have been consumed. Every call consumes one position.
\<close>

record rng =
  floats :: "nat \<Rightarrow> real"
  ints :: "nat \<Rightarrow> nat"
  pos :: nat

text \<open>\<^verbatim>\<open>np.random.rand()\<close> and \<^verbatim>\<open>np.random.random()\<close>: the next float.\<close>

definition random_sample :: "rng \<Rightarrow> real \<times> rng" where
  "random_sample g = (floats g (pos g), g\<lparr>pos := Suc (pos g)\<rparr>)"

text \<open>
  \<^verbatim>\<open>np.random.randint(0, high)\<close>: an integer of \<open>[0, high)\<close>, the raw draw reduced into
  the range; \<^verbatim>\<open>ValueError\<close> when the range is empty.
\<close>

definition randint :: "nat \<Rightarrow> rng \<Rightarrow> error + (nat \<times> rng)" where
  "randint high g =
     (if high = 0 then Inl ValueError
      else Inr (ints g (pos g) mod high, g\<lparr>pos := Suc (pos g)\<rparr>))"

text \<open>
  \<^verbatim>\<open>np.random.uniform(size=n)\<close>: \<open>n\<close> successive floats; \<^verbatim>\<open>ValueError\<close> for a
  negative \<open>n\<close>.
\<close>

definition uniform :: "int \<Rightarrow> rng \<Rightarrow> error + (real list \<times> rng)" where
  "uniform n g =
     (if n < 0 then Inl ValueError
      else Inr (map (floats g) [pos g ..< pos g + nat n], g\<lparr>pos := pos g + nat n\<rparr>))"

text \<open>
  \<^verbatim>\<open>np.argmax\<close>: the index of the first occurrence of the maximum, found by one scan
  that keeps the best index and value so far; \<^verbatim>\<open>ValueError\<close> on an empty array.
\<close>

fun argmax_scan :: "nat \<Rightarrow> real \<Rightarrow> nat \<Rightarrow> real list \<Rightarrow> nat" where
  "argmax_scan best bv i [] = best"
| "argmax_scan best bv i (x # xs) =
     (if bv < x then argmax_scan i x (Suc i) xs else argmax_scan best bv (Suc i) xs)"

definition argmax :: "real list \<Rightarrow> error + nat" where
  "argmax xs = (case xs of [] \<Rightarrow> Inl ValueError | x # ys \<Rightarrow> Inr (argmax_scan 0 x 1 ys))"

text \<open>
  \<^verbatim>\<open>a[i]\<close> on a one-dimensional array: a negative index counts from the end,
  \<^verbatim>\<open>IndexError\<close> outside \<open>[-n, n)\<close>.
\<close>

definition getitem :: "'a list \<Rightarrow> int \<Rightarrow> error + 'a" where
  "getitem xs i =
     (let n = int (length xs)
      in if 0 \<le> i \<and> i < n then Inr (xs ! nat i)
         else if - n \<le> i \<and> i < 0 then Inr (xs ! nat (n + i))
         else Inl IndexError)"

subsection \<open>BernoulliBandit\<close>

text \<open>
  \<open>K\<close> is stored last by the constructor, after \<^verbatim>\<open>uniform\<close> and \<^verbatim>\<open>argmax\<close> have
  succeeded, so a stored \<open>K\<close> is never negative: it is a natural number here.
\<close>

record BernoulliBandit =
  probs :: "real list"
  best_idx :: nat
  best_prob :: real
  K :: nat

definition BernoulliBandit_init :: "int \<Rightarrow> rng \<Rightarrow> error + (BernoulliBandit \<times> rng)" where
  "BernoulliBandit_init k g =
     (case uniform k g of
        Inl e \<Rightarrow> Inl e
      | Inr (ps, g') \<Rightarrow>
          (case argmax ps of
             Inl e \<Rightarrow> Inl e
           | Inr i \<Rightarrow> Inr (\<lparr>probs = ps, best_idx = i, best_prob = ps ! i, K = nat k\<rparr>, g')))"

text \<open>\<^verbatim>\<open>step\<close>: the draw comes first, then the lookup of \<^verbatim>\<open>probs[k]\<close>.\<close>

definition step :: "BernoulliBandit \<Rightarrow> int \<Rightarrow> rng \<Rightarrow> error + (int \<times> rng)" where
  "step b k g =
     (let (ran, g') = random_sample g
      in case getitem (probs b) k of
           Inl e \<Rightarrow> Inl e
         | Inr p \<Rightarrow> Inr (if ran < p then 1 else 0, g'))"

subsection \<open>Solver and its subclasses\<close>

text \<open>
  One record holds the fields of \<^verbatim>\<open>Solver\<close> and of its subclasses; \<open>policy\<close> says which
  class the object is, and selects the \<^verbatim>\<open>run_one_step\<close> that \<^verbatim>\<open>run\<close> dispatches to.
  A field a class does not have (\<open>epsilon\<close> outside \<^verbatim>\<open>EpsilonGreedy\<close>, \<open>total_count\<close> in
  \<^verbatim>\<open>EpsilonGreedy\<close>, \<open>coef\<close> outside \<^verbatim>\<open>UCB\<close>) is never read by that class.
\<close>

datatype policy = Solver | EpsilonGreedy | DecayingEpsilonGreedy | UCB

record solver =
  bandit :: BernoulliBandit
  counts :: "nat list"
  regret :: real
  actions :: "nat list"
  regrets :: "real list"
  policy :: policy
  estimates :: "real list"
  epsilon :: real
  total_count :: nat
  coef :: real

definition Solver_init :: "BernoulliBandit \<Rightarrow> solver" where
  "Solver_init b =
     \<lparr>bandit = b, counts = replicate (K b) 0, regret = 0, actions = [], regrets = [],
      policy = Solver, estimates = [], epsilon = 0, total_count = 0, coef = 0\<rparr>"

definition EpsilonGreedy_init :: "BernoulliBandit \<Rightarrow> real \<Rightarrow> real \<Rightarrow> solver" where
  "EpsilonGreedy_init b eps init_prob =
     (Solver_init b)\<lparr>policy := EpsilonGreedy, epsilon := eps,
                     estimates := replicate (K b) init_prob\<rparr>"

definition DecayingEpsilonGreedy_init :: "BernoulliBandit \<Rightarrow> real \<Rightarrow> solver" where
  "DecayingEpsilonGreedy_init b init_prob =
     (Solver_init b)\<lparr>policy := DecayingEpsilonGreedy,
                     estimates := replicate (K b) init_prob, total_count := 0\<rparr>"

definition UCB_init :: "BernoulliBandit \<Rightarrow> real \<Rightarrow> real \<Rightarrow> solver" where
  "UCB_init b c init_prob =
     (Solver_init b)\<lparr>policy := UCB, total_count := 0,
                     estimates := replicate (K b) init_prob, coef := c\<rparr>"

text \<open>\<^verbatim>\<open>update_regret\<close>.\<close>

definition update_regret :: "solver \<Rightarrow> nat \<Rightarrow> error + solver" where
  "update_regret s k =
     (if k < length (probs (bandit s))
      then (let r = regret s + (best_prob (bandit s) - probs (bandit s) ! k)
            in Inr (s\<lparr>regret := r, regrets := regrets s @ [r]\<rparr>))
      else Inl IndexError)"

text \<open>
  The last three statements of every \<^verbatim>\<open>run_one_step\<close>:
  \<^verbatim>\<open>r = self.bandit.step(k)\<close>,
  \<^verbatim>\<open>self.estimates[k] += 1. / (self.counts[k] + 1) * (r - self.estimates[k])\<close>,
  \<^verbatim>\<open>return k\<close>.
\<close>

definition pull_and_update :: "solver \<Rightarrow> nat \<Rightarrow> rng \<Rightarrow> error + (nat \<times> solver \<times> rng)" where
  "pull_and_update s k g =
     (case step (bandit s) (int k) g of
        Inl e \<Rightarrow> Inl e
      | Inr (r, g') \<Rightarrow>
          if k < length (estimates s) \<and> k < length (counts s)
          then Inr (k,
                 s\<lparr>estimates := (estimates s)
                     [k := estimates s ! k
                           + 1 / (real (counts s ! k) + 1) * (real_of_int r - estimates s ! k)]\<rparr>,
                 g')
          else Inl IndexError)"

text \<open>The choice of the arm in \<^verbatim>\<open>EpsilonGreedy.run_one_step\<close>.\<close>

definition EpsilonGreedy_select :: "solver \<Rightarrow> rng \<Rightarrow> error + (nat \<times> solver \<times> rng)" where
  "EpsilonGreedy_select s g =
     (let (u, g1) = random_sample g
      in if u < epsilon s
         then (case randint (K (bandit s)) g1 of
                 Inl e \<Rightarrow> Inl e
               | Inr (k, g2) \<Rightarrow> Inr (k, s, g2))
         else (case argmax (estimates s) of
                 Inl e \<Rightarrow> Inl e
               | Inr k \<Rightarrow> Inr (k, s, g1)))"

text \<open>
  The threshold of \<^verbatim>\<open>DecayingEpsilonGreedy\<close>, \<^verbatim>\<open>0.01 - 1 / self.total_count\<close>, as a
  function of the counter. The counter is incremented first, so the division never sees 0.
\<close>

definition decay_threshold :: "nat \<Rightarrow> real" where
  "decay_threshold t = 1 / 100 - 1 / real t"

definition DecayingEpsilonGreedy_select :: "solver \<Rightarrow> rng \<Rightarrow> error + (nat \<times> solver \<times> rng)" where
  "DecayingEpsilonGreedy_select s g =
     (let s1 = s\<lparr>total_count := total_count s + 1\<rparr>;
          (u, g1) = random_sample g
      in if u < decay_threshold (total_count s1)
         then (case randint (K (bandit s1)) g1 of
                 Inl e \<Rightarrow> Inl e
               | Inr (k, g2) \<Rightarrow> Inr (k, s1, g2))
         else (case argmax (estimates s1) of
                 Inl e \<Rightarrow> Inl e
               | Inr k \<Rightarrow> Inr (k, s1, g1)))"

text \<open>
  One entry of the array \<^verbatim>\<open>ucb\<close>:
  \<^verbatim>\<open>estimates + coef * np.sqrt(np.log(total_count) / (2 * (counts + 1)))\<close>.
\<close>

definition ucb_score :: "real \<Rightarrow> nat \<Rightarrow> real \<Rightarrow> nat \<Rightarrow> real" where
  "ucb_score cf t e c = e + cf * sqrt (ln (real t) / (2 * (real c + 1)))"

text \<open>
  The choice of the arm in \<^verbatim>\<open>UCB.run_one_step\<close>. The two arrays are combined
  elementwise; numpy refuses operands of different lengths with \<^verbatim>\<open>ValueError\<close>
  (broadcasting of a one-element operand is not modelled: both arrays are created with
  \<open>K\<close> entries).
\<close>

definition UCB_select :: "solver \<Rightarrow> rng \<Rightarrow> error + (nat \<times> solver \<times> rng)" where
  "UCB_select s g =
     (let s1 = s\<lparr>total_count := total_count s + 1\<rparr>
      in if length (estimates s1) \<noteq> length (counts s1) then Inl ValueError
         else (case argmax (map2 (ucb_score (coef s1) (total_count s1))
                                 (estimates s1) (counts s1)) of
                 Inl e \<Rightarrow> Inl e
               | Inr k \<Rightarrow> Inr (k, s1, g)))"

text \<open>
  \<^verbatim>\<open>run_one_step\<close>, dispatched on the class of the object. The base class raises
  \<^verbatim>\<open>NotImplementedError\<close>.
\<close>

definition select_arm :: "solver \<Rightarrow> rng \<Rightarrow> error + (nat \<times> solver \<times> rng)" where
  "select_arm s g =
     (case policy s of
        Solver \<Rightarrow> Inl NotImplementedError
      | EpsilonGreedy \<Rightarrow> EpsilonGreedy_select s g
      | DecayingEpsilonGreedy \<Rightarrow> DecayingEpsilonGreedy_select s g
      | UCB \<Rightarrow> UCB_select s g)"

definition run_one_step :: "solver \<Rightarrow> rng \<Rightarrow> error + (nat \<times> solver \<times> rng)" where
  "run_one_step s g =
     (case select_arm s g of
        Inl e \<Rightarrow> Inl e
      | Inr (k, s1, g1) \<Rightarrow> pull_and_update s1 k g1)"

text \<open>The body of the loop of \<^verbatim>\<open>run\<close>.\<close>

definition run_round :: "solver \<Rightarrow> rng \<Rightarrow> error + (solver \<times> rng)" where
  "run_round s g =
     (case run_one_step s g of
        Inl e \<Rightarrow> Inl e
      | Inr (k, s1, g1) \<Rightarrow>
          if k < length (counts s1)
          then (case update_regret
                       (s1\<lparr>counts := (counts s1)[k := counts s1 ! k + 1],
                           actions := actions s1 @ [k]\<rparr>) k of
                  Inl e \<Rightarrow> Inl e
                | Inr s2 \<Rightarrow> Inr (s2, g1))
          else Inl IndexError)"

fun run_loop :: "nat \<Rightarrow> solver \<Rightarrow> rng \<Rightarrow> error + (solver \<times> rng)" where
  "run_loop 0 s g = Inr (s, g)"
| "run_loop (Suc n) s g =
     (case run_round s g of
        Inl e \<Rightarrow> Inl e
      | Inr (s', g') \<Rightarrow> run_loop n s' g')"

text \<open>\<^verbatim>\<open>run\<close>: \<^verbatim>\<open>range(num_steps)\<close> is empty for a negative \<open>num_steps\<close>.\<close>

definition run :: "solver \<Rightarrow> int \<Rightarrow> rng \<Rightarrow> error + (solver \<times> rng)" where
  "run s num_steps g = run_loop (nat num_steps) s g"

subsection \<open>Specification vocabulary\<close>

text \<open>
  What the constructor of \<^verbatim>\<open>BernoulliBandit\<close> establishes and nothing afterwards
  changes: at least one arm, \<open>K\<close> the number of probabilities, and the recorded optimum
  the \<^verbatim>\<open>argmax\<close> of the probabilities.
\<close>

definition wf_bandit :: "BernoulliBandit \<Rightarrow> bool" where
  "wf_bandit b \<longleftrightarrow>
     probs b \<noteq> [] \<and> K b = length (probs b) \<and> argmax (probs b) = Inr (best_idx b) \<and>
     best_prob b = probs b ! best_idx b"

text \<open>
  What the constructors of the three policies establish and \<^verbatim>\<open>run\<close> keeps: the
  arrays \<open>counts\<close> and \<open>estimates\<close> have one entry per arm of a well-formed bandit.
\<close>

definition wf_solver :: "solver \<Rightarrow> bool" where
  "wf_solver s \<longleftrightarrow>
     wf_bandit (bandit s) \<and> length (counts s) = K (bandit s) \<and>
     length (estimates s) = K (bandit s) \<and> policy s \<noteq> Solver"

text \<open>
  The state after one round of \<^verbatim>\<open>run\<close> in which arm \<open>k\<close> was chosen, reward \<open>r\<close> was
  observed and the round counter of the policy became \<open>t\<close>.
\<close>

definition round_effect :: "solver \<Rightarrow> nat \<Rightarrow> int \<Rightarrow> nat \<Rightarrow> solver" where
  "round_effect s k r t =
     s\<lparr>total_count := t,
       estimates := (estimates s)
         [k := estimates s ! k + 1 / (real (counts s ! k) + 1) * (real_of_int r - estimates s ! k)],
       counts := (counts s)[k := counts s ! k + 1],
       actions := actions s @ [k],
       regret := regret s + (best_prob (bandit s) - probs (bandit s) ! k),
       regrets := regrets s @ [regret s + (best_prob (bandit s) - probs (bandit s) ! k)]\<rparr>"

text \<open>
  The rewards are local to \<^verbatim>\<open>run_one_step\<close> and are not stored by the program. The log
  of a run lists, round by round, the arm chosen and the reward \<^verbatim>\<open>step\<close> returned for
  it; it is recomputed from the same state and generator as the run itself.
\<close>

fun run_log :: "nat \<Rightarrow> solver \<Rightarrow> rng \<Rightarrow> (nat \<times> int) list" where
  "run_log 0 s g = []"
| "run_log (Suc n) s g =
     (case select_arm s g of
        Inl e \<Rightarrow> []
      | Inr (k, s1, g1) \<Rightarrow>
          (case step (bandit s1) (int k) g1 of
             Inl e \<Rightarrow> []
           | Inr (r, g2) \<Rightarrow>
               (case run_round s g of
                  Inl e \<Rightarrow> []
                | Inr (s', g') \<Rightarrow> (k, r) # run_log n s' g')))"

text \<open>The rewards a log holds for arm \<open>a\<close>, in the order they were observed.\<close>

definition arm_rewards :: "nat \<Rightarrow> (nat \<times> int) list \<Rightarrow> int list" where
  "arm_rewards a l = map snd (filter (\<lambda>p. fst p = a) l)"

subsection \<open>Sample inputs\<close>

text \<open>
  A generator whose floats alternate between small and large values of \<open>[0, 1)\<close>
  (\<open>1/2, 2/3, 1/4, 4/5, 1/6, 6/7, \<dots>\<close>) and whose raw integers are \<open>0, 1, 2, \<dots>\<close>, and
  the two-armed bandit the constructor builds from it.
\<close>

definition demo_rng :: rng where
  "demo_rng =
     \<lparr>floats = (\<lambda>i. if even i then 1 / (real i + 2) else 1 - 1 / (real i + 2)),
      ints = (\<lambda>i. i), pos = 0\<rparr>"

definition demo_bandit :: BernoulliBandit where
  "demo_bandit = \<lparr>probs = [1 / 2, 2 / 3], best_idx = 1, best_prob = 2 / 3, K = 2\<rparr>"

text \<open>The one-armed bandit the constructor builds from the same generator.\<close>

definition demo_single :: BernoulliBandit where
  "demo_single = \<lparr>probs = [1 / 2], best_idx = 0, best_prob = 1 / 2, K = 1\<rparr>"

section \<open>Properties\<close>

subsection \<open>The primitives and one round\<close>

lemma argmax_scan_spec:
  "best < length pre \<Longrightarrow> pre ! best = bv \<Longrightarrow> (\<forall>j<length pre. pre ! j \<le> bv) \<Longrightarrow>
   (\<forall>j<best. pre ! j < bv) \<Longrightarrow>
   argmax_scan best bv (length pre) xs < length (pre @ xs) \<and>
   (\<forall>j<length (pre @ xs). (pre @ xs) ! j \<le> (pre @ xs) ! argmax_scan best bv (length pre) xs) \<and>
   (\<forall>j<argmax_scan best bv (length pre) xs. (pre @ xs) ! j < (pre @ xs) ! argmax_scan best bv (length pre) xs)"
proof (induction xs arbitrary: best bv pre)
  case Nil
  then show ?case by simp
next
  case (Cons x xs)
  show ?case
  proof (cases "bv < x")
    case True
    have a: "length pre < length (pre @ [x])" by simp
    have b: "(pre @ [x]) ! length pre = x" by simp
    have c: "\<forall>j<length (pre @ [x]). (pre @ [x]) ! j \<le> x"
      using Cons.prems True by (auto simp: nth_append less_Suc_eq intro: less_imp_le order_trans)
    have d: "\<forall>j<length pre. (pre @ [x]) ! j < x"
      using Cons.prems True by (auto simp: nth_append intro: le_less_trans)
    from Cons.IH[OF a b c d] True show ?thesis by simp
  next
    case False
    have a: "best < length (pre @ [x])" using Cons.prems by simp
    have b: "(pre @ [x]) ! best = bv" using Cons.prems by (simp add: nth_append)
    have c: "\<forall>j<length (pre @ [x]). (pre @ [x]) ! j \<le> bv"
      using Cons.prems False by (auto simp: nth_append less_Suc_eq)
    have d: "\<forall>j<best. (pre @ [x]) ! j < bv"
      using Cons.prems by (auto simp: nth_append)
    from Cons.IH[OF a b c d] False show ?thesis by simp
  qed
qed

lemma argmax_Nil: "argmax [] = Inl ValueError"
  by (simp add: argmax_def)

lemma argmax_spec:
  assumes "xs \<noteq> []"
  obtains k where "argmax xs = Inr k" "k < length xs"
    "\<forall>j<length xs. xs ! j \<le> xs ! k" "\<forall>j<k. xs ! j < xs ! k"
proof -
  from assms obtain x ys where xs: "xs = x # ys" by (cases xs) auto
  have "argmax_scan 0 x (length [x]) ys < length ([x] @ ys) \<and>
   (\<forall>j<length ([x] @ ys). ([x] @ ys) ! j \<le> ([x] @ ys) ! argmax_scan 0 x (length [x]) ys) \<and>
   (\<forall>j<argmax_scan 0 x (length [x]) ys. ([x] @ ys) ! j < ([x] @ ys) ! argmax_scan 0 x (length [x]) ys)"
    by (rule argmax_scan_spec) auto
  then show ?thesis using that[of "argmax_scan 0 x 1 ys"] xs by (simp add: argmax_def)
qed

lemma argmax_Inr:
  assumes "argmax xs = Inr k"
  shows "k < length xs \<and> (\<forall>j<length xs. xs ! j \<le> xs ! k) \<and> (\<forall>j<k. xs ! j < xs ! k)"
proof -
  from assms have "xs \<noteq> []" by (auto simp: argmax_def)
  then show ?thesis using assms by (auto elim!: argmax_spec)
qed

lemma wf_bandit_best:
  assumes "wf_bandit b"
  shows "best_idx b < K b" and "\<And>k. k < K b \<Longrightarrow> probs b ! k \<le> best_prob b"
    and "\<And>j. j < best_idx b \<Longrightarrow> probs b ! j < best_prob b"
  using assms argmax_Inr[of "probs b" "best_idx b"] by (auto simp: wf_bandit_def)

lemma BernoulliBandit_init_wf:
  assumes "1 \<le> k"
  shows "\<exists>b. BernoulliBandit_init k g = Inr (b, g\<lparr>pos := pos g + nat k\<rparr>) \<and> wf_bandit b \<and>
           probs b = map (floats g) [pos g ..< pos g + nat k]"
proof -
  let ?ps = "map (floats g) [pos g ..< pos g + nat k]"
  have ne: "?ps \<noteq> []" using assms by simp
  then obtain i where i: "argmax ?ps = Inr i" by (rule argmax_spec)
  show ?thesis using assms i ne
    by (simp add: BernoulliBandit_init_def uniform_def wf_bandit_def)
qed

lemma BernoulliBandit_init_Inr:
  assumes "BernoulliBandit_init k g = Inr (b, g')"
  shows "1 \<le> k \<and> wf_bandit b"
proof -
  have "1 \<le> k"
  proof (rule ccontr)
    assume "\<not> 1 \<le> k"
    then have "k < 0 \<or> k = 0" by arith
    then show False using assms
      by (auto simp: BernoulliBandit_init_def uniform_def argmax_def)
  qed
  then show ?thesis using BernoulliBandit_init_wf[of k g] assms by auto
qed

lemma step_in_range:
  assumes "k < length (probs b)"
  shows "step b (int k) g =
     Inr (if floats g (pos g) < probs b ! k then 1 else 0, g\<lparr>pos := Suc (pos g)\<rparr>)"
  using assms by (simp add: step_def random_sample_def getitem_def)

lemma select_arm_wf:
  assumes "wf_solver s"
  obtains k t g1 where "select_arm s g = Inr (k, s\<lparr>total_count := t\<rparr>, g1)" "k < K (bandit s)"
proof -
  from assms have ne: "estimates s \<noteq> []" and Kpos: "K (bandit s) \<noteq> 0"
    and len: "length (estimates s) = K (bandit s)" "length (counts s) = K (bandit s)"
    by (auto simp: wf_solver_def wf_bandit_def)
  from ne obtain ka where ka: "argmax (estimates s) = Inr ka" "ka < length (estimates s)"
    by (rule argmax_spec)
  let ?sc = "map2 (ucb_score (coef s) (total_count s + 1)) (estimates s) (counts s)"
  have "?sc \<noteq> []" using ne len by (cases "estimates s"; cases "counts s") auto
  then obtain ku where ku: "argmax ?sc = Inr ku" "ku < length ?sc" by (rule argmax_spec)
  have pol: "policy s \<noteq> Solver" using assms by (simp add: wf_solver_def)
  show ?thesis
  proof (cases "policy s")
    case Solver
    with pol show ?thesis by simp
  next
    case EpsilonGreedy
    have eq: "s\<lparr>total_count := total_count s\<rparr> = s" by simp
    show ?thesis
    proof (cases "floats g (pos g) < epsilon s")
      case True
      have "select_arm s g = Inr (ints g (Suc (pos g)) mod K (bandit s), s\<lparr>total_count := total_count s\<rparr>,
              g\<lparr>pos := Suc (Suc (pos g))\<rparr>)"
        using EpsilonGreedy True Kpos
        by (simp add: select_arm_def EpsilonGreedy_select_def random_sample_def randint_def)
      then show ?thesis using Kpos that[of _ "total_count s"] by simp
    next
      case False
      have "select_arm s g = Inr (ka, s\<lparr>total_count := total_count s\<rparr>, g\<lparr>pos := Suc (pos g)\<rparr>)"
        using EpsilonGreedy False ka
        by (simp add: select_arm_def EpsilonGreedy_select_def random_sample_def)
      then show ?thesis using ka len that[of _ "total_count s"] by simp
    qed
  next
    case DecayingEpsilonGreedy
    show ?thesis
    proof (cases "floats g (pos g) < decay_threshold (total_count s + 1)")
      case True
      have "select_arm s g = Inr (ints g (Suc (pos g)) mod K (bandit s), s\<lparr>total_count := total_count s + 1\<rparr>,
              g\<lparr>pos := Suc (Suc (pos g))\<rparr>)"
        using DecayingEpsilonGreedy True Kpos
        by (simp add: select_arm_def DecayingEpsilonGreedy_select_def random_sample_def randint_def)
      then show ?thesis using Kpos that[of _ "total_count s + 1"] by simp
    next
      case False
      have "select_arm s g = Inr (ka, s\<lparr>total_count := total_count s + 1\<rparr>, g\<lparr>pos := Suc (pos g)\<rparr>)"
        using DecayingEpsilonGreedy False ka
        by (simp add: select_arm_def DecayingEpsilonGreedy_select_def random_sample_def)
      then show ?thesis using ka len that[of _ "total_count s + 1"] by simp
    qed
  next
    case UCB
    have "select_arm s g = Inr (ku, s\<lparr>total_count := total_count s + 1\<rparr>, g)"
      using UCB ku len by (simp add: select_arm_def UCB_select_def)
    then show ?thesis using ku len that[of _ "total_count s + 1"] by simp
  qed
qed

lemma run_round_wf:
  assumes "wf_solver s"
  obtains k r t g' where "k < K (bandit s)" "r = 0 \<or> r = 1"
    "run_round s g = Inr (round_effect s k r t, g')"
    "\<And>n. run_log (Suc n) s g = (k, r) # run_log n (round_effect s k r t) g'"
proof -
  from assms have len: "length (estimates s) = K (bandit s)" "length (counts s) = K (bandit s)"
    "length (probs (bandit s)) = K (bandit s)"
    by (auto simp: wf_solver_def wf_bandit_def)
  obtain k t g1 where sel: "select_arm s g = Inr (k, s\<lparr>total_count := t\<rparr>, g1)"
    and k: "k < K (bandit s)"
    using assms by (rule select_arm_wf)
  define r :: int where "r = (if floats g1 (pos g1) < probs (bandit s) ! k then 1 else 0)"
  define g' where "g' = g1\<lparr>pos := Suc (pos g1)\<rparr>"
  have st: "step (bandit s) (int k) g1 = Inr (r, g')"
    using k len by (simp add: step_in_range r_def g'_def)
  have pu: "run_one_step s g = Inr (k, s\<lparr>total_count := t, estimates := (estimates s)
         [k := estimates s ! k + 1 / (real (counts s ! k) + 1) * (real_of_int r - estimates s ! k)]\<rparr>, g')"
    using sel st k len by (simp add: run_one_step_def pull_and_update_def)
  have rr: "run_round s g = Inr (round_effect s k r t, g')"
    using pu k len by (simp add: run_round_def update_regret_def round_effect_def Let_def)
  have "r = 0 \<or> r = 1" by (simp add: r_def)
  moreover have "\<And>n. run_log (Suc n) s g = (k, r) # run_log n (round_effect s k r t) g'"
    using sel st rr by simp
  ultimately show ?thesis using k rr that by blast
qed

lemma round_effect_wf:
  assumes "wf_solver s" "k < K (bandit s)"
  shows "wf_solver (round_effect s k r t)"
  using assms by (simp add: wf_solver_def round_effect_def)

lemma round_effect_simps:
  "bandit (round_effect s k r t) = bandit s"
  "policy (round_effect s k r t) = policy s"
  "epsilon (round_effect s k r t) = epsilon s"
  "coef (round_effect s k r t) = coef s"
  "total_count (round_effect s k r t) = t"
  "counts (round_effect s k r t) = (counts s)[k := counts s ! k + 1]"
  "actions (round_effect s k r t) = actions s @ [k]"
  "regret (round_effect s k r t) = regret s + (best_prob (bandit s) - probs (bandit s) ! k)"
  "regrets (round_effect s k r t) = regrets s @ [regret s + (best_prob (bandit s) - probs (bandit s) ! k)]"
  "estimates (round_effect s k r t) = (estimates s)
         [k := estimates s ! k + 1 / (real (counts s ! k) + 1) * (real_of_int r - estimates s ! k)]"
  by (simp_all add: round_effect_def)

text \<open>
  An invariant of the rounds, indexed by the number of rounds played, holds after the
  loop; the loop always returns on a well-formed object.
\<close>

lemma run_loop_invariant:
  assumes "wf_solver s" "P m s"
    and "\<And>s m k r t. wf_solver s \<Longrightarrow> P m s \<Longrightarrow> k < K (bandit s) \<Longrightarrow> r = 0 \<or> r = 1 \<Longrightarrow>
           P (Suc m) (round_effect s k r t)"
  shows "\<exists>s' g'. run_loop n s g = Inr (s', g') \<and> wf_solver s' \<and> P (m + n) s'"
  using assms(1,2)
proof (induction n arbitrary: s g m)
  case 0
  then show ?case by simp
next
  case (Suc n)
  obtain k r t g' where k: "k < K (bandit s)" and r: "r = 0 \<or> r = 1"
    and rr: "run_round s g = Inr (round_effect s k r t, g')"
    using Suc.prems(1) by (rule run_round_wf)
  have "wf_solver (round_effect s k r t)" using Suc.prems(1) k by (rule round_effect_wf)
  moreover have "P (Suc m) (round_effect s k r t)" using Suc.prems k r by (rule assms(3))
  ultimately have "\<exists>s' g''. run_loop n (round_effect s k r t) g' = Inr (s', g'') \<and>
      wf_solver s' \<and> P (Suc m + n) s'"
    by (rule Suc.IH)
  then show ?case using rr by simp
qed

lemma init_wf:
  assumes "wf_bandit b"
    and "s = EpsilonGreedy_init b eps p \<or> s = DecayingEpsilonGreedy_init b p \<or> s = UCB_init b c p"
  shows "wf_solver s" "bandit s = b" "counts s = replicate (K b) 0" "actions s = []"
    "regrets s = []" "regret s = 0" "estimates s = replicate (K b) p"
  using assms
  by (auto simp: wf_solver_def EpsilonGreedy_init_def
      DecayingEpsilonGreedy_init_def UCB_init_def Solver_init_def)

subsection \<open>Evaluation on the sample inputs\<close>

lemma replicate_2: "replicate 2 x = [x, x]"
  by (simp add: numeral_2_eq_2)

lemma run_loop_2:
  "run_loop 2 s g =
     (case run_round s g of
        Inl e \<Rightarrow> Inl e
      | Inr (s', g') \<Rightarrow>
          (case run_round s' g' of Inl e \<Rightarrow> Inl e | Inr (s'', g'') \<Rightarrow> Inr (s'', g'')))"
  by (simp add: numeral_2_eq_2 split: sum.splits)

lemma demo_bandit_init:
  "BernoulliBandit_init 2 demo_rng = Inr (demo_bandit, demo_rng\<lparr>pos := 2\<rparr>)"
  by (simp add: BernoulliBandit_init_def uniform_def argmax_def demo_rng_def demo_bandit_def
      upt_rec)

lemma demo_run:
  "run (EpsilonGreedy_init demo_bandit (1 / 5) 1) 2 (demo_rng\<lparr>pos := 2\<rparr>) =
     Inr ((EpsilonGreedy_init demo_bandit (1 / 5) 1)
            \<lparr>estimates := [0, 1], counts := [1, 1], actions := [0, 1],
             regret := 1 / 6, regrets := [1 / 6, 1 / 6]\<rparr>,
          demo_rng\<lparr>pos := 7\<rparr>)"
  by (simp add: run_def run_loop_2 replicate_2 run_round_def run_one_step_def select_arm_def
      EpsilonGreedy_select_def EpsilonGreedy_init_def Solver_init_def demo_bandit_def
      demo_rng_def random_sample_def randint_def argmax_def pull_and_update_def step_def
      getitem_def update_regret_def Let_def)

subsection \<open>The regret history of one run\<close>

lemma regrets_step:
  assumes "wf_solver s" "k < K (bandit s)"
    "length (regrets s) = m \<and> sorted (regrets s) \<and> (\<forall>x\<in>set (regrets s). x \<le> regret s)"
  shows "length (regrets (round_effect s k r t)) = Suc m \<and>
     sorted (regrets (round_effect s k r t)) \<and>
     (\<forall>x\<in>set (regrets (round_effect s k r t)). x \<le> regret (round_effect s k r t))"
proof -
  have "probs (bandit s) ! k \<le> best_prob (bandit s)"
    using assms(1,2) wf_bandit_best(2)[of "bandit s" k] by (simp add: wf_solver_def)
  then show ?thesis using assms(3)
    by (auto simp: round_effect_simps sorted_append intro: order_trans)
qed

text \<open>
  Claim C3. For each of the three policies, created over a bandit the constructor built,
  a single call \<^verbatim>\<open>run(n)\<close> with \<open>n \<ge> 0\<close> on the fresh object returns, and afterwards
  the list \<open>regrets\<close> of cumulative-regret snapshots is non-decreasing and has exactly
  \<open>n\<close> entries.
\<close>

theorem run_regrets_sorted:
  assumes "BernoulliBandit_init k0 g0 = Inr (b, g1)"
    and "s = EpsilonGreedy_init b eps p \<or> s = DecayingEpsilonGreedy_init b p \<or> s = UCB_init b c p"
    and "0 \<le> n"
  shows "\<exists>s' g'. run s n g = Inr (s', g') \<and> sorted (regrets s') \<and> int (length (regrets s')) = n"
proof -
  have wb: "wf_bandit b" using assms(1) BernoulliBandit_init_Inr by blast
  have ws: "wf_solver s" and r0: "regrets s = []" using init_wf[OF wb assms(2)] by simp_all
  let ?P = "\<lambda>m s. length (regrets s) = m \<and> sorted (regrets s) \<and>
                  (\<forall>x\<in>set (regrets s). x \<le> regret s)"
  have "\<exists>s' g'. run_loop (nat n) s g = Inr (s', g') \<and> wf_solver s' \<and> ?P (0 + nat n) s'"
  proof (rule run_loop_invariant[where P = ?P, OF ws])
    show "?P 0 s" using r0 by simp
  next
    fix s m k r t
    assume "wf_solver s" "?P m s" "k < K (bandit s)" "r = 0 \<or> r = (1::int)"
    then show "?P (Suc m) (round_effect s k r t)" using regrets_step by blast
  qed
  then show ?thesis using assms(3) by (auto simp: run_def)
qed

theorem run_regrets_sorted_witness:
  "BernoulliBandit_init 2 demo_rng = Inr (demo_bandit, demo_rng\<lparr>pos := 2\<rparr>) \<and> (0::int) \<le> 2 \<and>
   (\<exists>s' g'. run (EpsilonGreedy_init demo_bandit (1 / 5) 1) 2 (demo_rng\<lparr>pos := 2\<rparr>) = Inr (s', g') \<and>
      regrets s' = [1 / 6, 1 / 6] \<and> sorted (regrets s') \<and> int (length (regrets s')) = 2)"
  using run_regrets_sorted[OF demo_bandit_init,
      of "EpsilonGreedy_init demo_bandit (1 / 5) 1" "1 / 5" 1 0 2 "demo_rng\<lparr>pos := 2\<rparr>"]
  by (simp add: demo_bandit_init demo_run)

subsection \<open>A bandit with a single arm\<close>

lemma BernoulliBandit_init_K:
  assumes "BernoulliBandit_init k g = Inr (b, g')"
  shows "K b = nat k"
  using assms by (auto simp: BernoulliBandit_init_def split: sum.splits)

lemma single_arm_step:
  assumes "wf_solver s" "k < K (bandit s)"
    "K (bandit s) = 1 \<and> actions s = replicate m 0 \<and> regrets s = replicate m 0 \<and> regret s = 0"
  shows "K (bandit (round_effect s k r t)) = 1 \<and> actions (round_effect s k r t) = replicate (Suc m) 0 \<and>
    regrets (round_effect s k r t) = replicate (Suc m) 0 \<and> regret (round_effect s k r t) = 0"
proof -
  have k0: "k = 0" using assms(2,3) by simp
  have "best_idx (bandit s) < K (bandit s)"
    using assms(1) wf_bandit_best(1) by (simp add: wf_solver_def)
  then have "best_idx (bandit s) = 0" using assms(3) by simp
  then have "best_prob (bandit s) = probs (bandit s) ! 0"
    using assms(1) by (simp add: wf_solver_def wf_bandit_def)
  then show ?thesis using assms(3) k0
    by (simp add: round_effect_simps replicate_append_same)
qed

text \<open>
  Claim C9. Over a bandit constructed with \<open>K = 1\<close>, a run of any length of each of the
  three policies returns, every action it records is arm \<open>0\<close> (whatever the generator
  yields, so in the exploring and in the exploiting branch alike), every regret snapshot
  is \<open>0\<close> and the running regret is \<open>0\<close>.
\<close>

theorem single_arm:
  assumes "BernoulliBandit_init 1 g0 = Inr (b, g1)"
    and "s = EpsilonGreedy_init b eps p \<or> s = DecayingEpsilonGreedy_init b p \<or> s = UCB_init b c p"
  shows "\<exists>s' g'. run s n g = Inr (s', g') \<and> actions s' = replicate (nat n) 0 \<and>
     regrets s' = replicate (nat n) 0 \<and> regret s' = 0"
proof -
  have wb: "wf_bandit b" using assms(1) BernoulliBandit_init_Inr by blast
  have K1: "K b = 1" using BernoulliBandit_init_K[OF assms(1)] by simp
  note i = init_wf[OF wb assms(2)]
  let ?P = "\<lambda>m s. K (bandit s) = 1 \<and> actions s = replicate m 0 \<and> regrets s = replicate m 0 \<and>
     regret s = 0"
  have "\<exists>s' g'. run_loop (nat n) s g = Inr (s', g') \<and> wf_solver s' \<and> ?P (0 + nat n) s'"
  proof (rule run_loop_invariant[where P = ?P, OF i(1)])
    show "?P 0 s" using i K1 by simp
  next
    fix s m k r t
    assume "wf_solver s" "?P m s" "k < K (bandit s)" "r = 0 \<or> r = (1::int)"
    then show "?P (Suc m) (round_effect s k r t)" using single_arm_step by blast
  qed
  then show ?thesis by (auto simp: run_def)
qed

lemma demo_single_init:
  "BernoulliBandit_init 1 demo_rng = Inr (demo_single, demo_rng\<lparr>pos := 1\<rparr>)"
  by (simp add: BernoulliBandit_init_def uniform_def argmax_def demo_rng_def demo_single_def)

theorem single_arm_witness:
  "BernoulliBandit_init 1 demo_rng = Inr (demo_single, demo_rng\<lparr>pos := 1\<rparr>) \<and>
   (\<exists>s' g'. run (UCB_init demo_single 1 1) 3 (demo_rng\<lparr>pos := 1\<rparr>) = Inr (s', g') \<and>
      actions s' = [0, 0, 0] \<and> regrets s' = [0, 0, 0] \<and> regret s' = 0)"
  using single_arm[OF demo_single_init, of "UCB_init demo_single 1 1" 0 1 1 3 "demo_rng\<lparr>pos := 1\<rparr>"]
  by (simp add: demo_single_init eval_nat_numeral)

subsection \<open>The estimates stay probabilities\<close>

lemma convex_update:
  assumes "0 \<le> e" "e \<le> 1" "r = 0 \<or> r = 1"
  shows "0 \<le> e + 1 / (real c + 1) * (real_of_int r - e) \<and>
         e + 1 / (real c + 1) * (real_of_int r - e) \<le> 1"
proof -
  define w where "w = 1 / (real c + 1)"
  have w: "0 < w" "w \<le> 1" by (simp_all add: w_def)
  have eq: "e + w * (real_of_int r - e) = (1 - w) * e + w * real_of_int r"
    by (simp add: algebra_simps)
  have r: "0 \<le> real_of_int r" "real_of_int r \<le> 1" using assms(3) by auto
  have lo: "0 \<le> (1 - w) * e + w * real_of_int r"
    using w assms(1) r by (intro add_nonneg_nonneg mult_nonneg_nonneg) simp_all
  have "(1 - w) * e \<le> (1 - w) * 1" using w assms(2) by (intro mult_left_mono) simp_all
  moreover have "w * real_of_int r \<le> w * 1" using w r by (intro mult_left_mono) simp_all
  ultimately have hi: "(1 - w) * e + w * real_of_int r \<le> 1" by simp
  show ?thesis using lo hi eq by (simp add: w_def)
qed

lemma estimates_step:
  assumes "wf_solver s" "k < K (bandit s)" "r = 0 \<or> r = 1"
    "bandit s = b \<and> (\<forall>a<K b. 0 \<le> estimates s ! a \<and> estimates s ! a \<le> 1)"
  shows "bandit (round_effect s k r t) = b \<and>
    (\<forall>a<K b. 0 \<le> estimates (round_effect s k r t) ! a \<and> estimates (round_effect s k r t) ! a \<le> 1)"
proof -
  have len: "length (estimates s) = K b" using assms(1,4) by (simp add: wf_solver_def)
  have "0 \<le> estimates s ! k" "estimates s ! k \<le> 1" using assms(2,4) by auto
  from convex_update[OF this assms(3), of "counts s ! k"] show ?thesis
    using assms(2,4) len by (auto simp: round_effect_simps nth_list_update)
qed

text \<open>
  Claim C10. For each of the three policies created with a prior \<open>init_prob\<close> in
  \<open>[0, 1]\<close>, a run of any length returns and every per-arm estimate is still in
  \<open>[0, 1]\<close>: each update \<open>e + (r - e) / (c + 1)\<close> is the convex combination
  \<open>(1 - w) * e + w * r\<close> with \<open>w = 1 / (c + 1)\<close> in \<open>(0, 1]\<close> and \<open>r\<close> in \<open>{0, 1}\<close>.
\<close>

theorem estimates_in_unit_interval:
  assumes "BernoulliBandit_init k0 g0 = Inr (b, g1)"
    and "s = EpsilonGreedy_init b eps p \<or> s = DecayingEpsilonGreedy_init b p \<or> s = UCB_init b c p"
    and "0 \<le> p" "p \<le> 1"
  shows "\<exists>s' g'. run s n g = Inr (s', g') \<and> length (estimates s') = K b \<and>
     (\<forall>a<K b. 0 \<le> estimates s' ! a \<and> estimates s' ! a \<le> 1)"
proof -
  have wb: "wf_bandit b" using assms(1) BernoulliBandit_init_Inr by blast
  note i = init_wf[OF wb assms(2)]
  let ?P = "\<lambda>(m::nat) s. bandit s = b \<and> (\<forall>a<K b. 0 \<le> estimates s ! a \<and> estimates s ! a \<le> 1)"
  have "\<exists>s' g'. run_loop (nat n) s g = Inr (s', g') \<and> wf_solver s' \<and> ?P (0 + nat n) s'"
  proof (rule run_loop_invariant[where P = ?P, OF i(1)])
    show "?P 0 s" using i assms(3,4) by simp
  next
    fix s and m :: nat and k r t
    assume "wf_solver s" "?P m s" "k < K (bandit s)" "r = 0 \<or> r = (1::int)"
    then show "?P (Suc m) (round_effect s k r t)" using estimates_step by blast
  qed
  then show ?thesis by (auto simp: run_def wf_solver_def)
qed

lemma demo_bandit_K: "K demo_bandit = 2"
  by (simp add: demo_bandit_def)

theorem estimates_in_unit_interval_witness:
  "BernoulliBandit_init 2 demo_rng = Inr (demo_bandit, demo_rng\<lparr>pos := 2\<rparr>) \<and>
   (0::real) \<le> 1 \<and> (1::real) \<le> 1 \<and>
   (\<exists>s' g'. run (EpsilonGreedy_init demo_bandit (1 / 5) 1) 2 (demo_rng\<lparr>pos := 2\<rparr>) = Inr (s', g') \<and>
      estimates s' = [0, 1] \<and> length (estimates s') = K demo_bandit \<and>
      0 \<le> estimates s' ! 0 \<and> estimates s' ! 0 \<le> 1 \<and> 0 \<le> estimates s' ! 1 \<and> estimates s' ! 1 \<le> 1)"
  using estimates_in_unit_interval[OF demo_bandit_init,
      of "EpsilonGreedy_init demo_bandit (1 / 5) 1" "1 / 5" 1 0 2 "demo_rng\<lparr>pos := 2\<rparr>"]
  by (simp add: demo_bandit_init demo_run demo_bandit_K)

subsection \<open>The environment\<close>

lemma demo_floats_range: "0 \<le> floats demo_rng i \<and> floats demo_rng i < 1"
  by (simp add: demo_rng_def field_simps)

text \<open>
  Claim C5. For every \<open>K \<le> 0\<close> the constructor of the environment fails: numpy raises
  \<^verbatim>\<open>ValueError\<close>, for a negative \<open>K\<close> in \<^verbatim>\<open>uniform\<close> and for \<open>K = 0\<close> in \<^verbatim>\<open>argmax\<close>
  of the empty array (the program has no exception class of its own; this is its
  invalid-configuration failure). For every \<open>K \<ge> 1\<close>, with a generator whose floats lie
  in \<open>[0, 1)\<close>, it returns a bandit with exactly \<open>K\<close> probabilities, each in \<open>[0, 1)\<close>,
  whose \<open>best_prob\<close> is the maximum of the probabilities and whose \<open>best_idx\<close> is the
  first index where the maximum occurs.
\<close>

theorem BernoulliBandit_init_spec:
  "(k \<le> 0 \<longrightarrow> BernoulliBandit_init k g = Inl ValueError) \<and>
   (1 \<le> k \<and> (\<forall>i. 0 \<le> floats g i \<and> floats g i < 1) \<longrightarrow>
      (\<exists>b g'. BernoulliBandit_init k g = Inr (b, g') \<and> int (length (probs b)) = k \<and>
         (\<forall>x\<in>set (probs b). 0 \<le> x \<and> x < 1) \<and>
         best_prob b = Max (set (probs b)) \<and>
         best_idx b < length (probs b) \<and> probs b ! best_idx b = best_prob b \<and>
         (\<forall>j<best_idx b. probs b ! j < best_prob b)))"
proof (intro conjI impI)
  assume "k \<le> 0"
  then have "k < 0 \<or> k = 0" by arith
  then show "BernoulliBandit_init k g = Inl ValueError"
    by (auto simp: BernoulliBandit_init_def uniform_def argmax_def)
next
  assume a: "1 \<le> k \<and> (\<forall>i. 0 \<le> floats g i \<and> floats g i < 1)"
  then obtain b where i: "BernoulliBandit_init k g = Inr (b, g\<lparr>pos := pos g + nat k\<rparr>)"
    and wb: "wf_bandit b" and ps: "probs b = map (floats g) [pos g ..< pos g + nat k]"
    using BernoulliBandit_init_wf[of k g] by blast
  have len: "int (length (probs b)) = k" using ps a by simp
  have rng: "\<forall>x\<in>set (probs b). 0 \<le> x \<and> x < 1" using ps a by auto
  have bi: "best_idx b < length (probs b)" using wf_bandit_best(1)[OF wb] wb
    by (simp add: wf_bandit_def)
  have bp: "probs b ! best_idx b = best_prob b" using wb by (simp add: wf_bandit_def)
  have le: "x \<le> best_prob b" if "x \<in> set (probs b)" for x
    using that wf_bandit_best(2)[OF wb] wb by (auto simp: in_set_conv_nth wf_bandit_def)
  have "best_prob b \<in> set (probs b)" using bi bp by (metis nth_mem)
  then have "Max (set (probs b)) = best_prob b" using le by (intro Max_eqI) simp_all
  then have mx: "best_prob b = Max (set (probs b))" by simp
  have fst: "\<forall>j<best_idx b. probs b ! j < best_prob b" using wf_bandit_best(3)[OF wb] by blast
  show "\<exists>b g'. BernoulliBandit_init k g = Inr (b, g') \<and> int (length (probs b)) = k \<and>
         (\<forall>x\<in>set (probs b). 0 \<le> x \<and> x < 1) \<and>
         best_prob b = Max (set (probs b)) \<and>
         best_idx b < length (probs b) \<and> probs b ! best_idx b = best_prob b \<and>
         (\<forall>j<best_idx b. probs b ! j < best_prob b)"
    using i len rng mx bi bp fst by blast
qed

theorem BernoulliBandit_init_spec_witness:
  "(-1::int) \<le> 0 \<and> BernoulliBandit_init (-1) demo_rng = Inl ValueError \<and>
   (0::int) \<le> 0 \<and> BernoulliBandit_init 0 demo_rng = Inl ValueError \<and>
   (1::int) \<le> 2 \<and> (\<forall>i. 0 \<le> floats demo_rng i \<and> floats demo_rng i < 1) \<and>
   (\<exists>b g'. BernoulliBandit_init 2 demo_rng = Inr (b, g') \<and> int (length (probs b)) = 2 \<and>
      (\<forall>x\<in>set (probs b). 0 \<le> x \<and> x < 1) \<and>
      best_prob b = Max (set (probs b)) \<and>
      best_idx b < length (probs b) \<and> probs b ! best_idx b = best_prob b \<and>
      (\<forall>j<best_idx b. probs b ! j < best_prob b))"
  using BernoulliBandit_init_spec[of "-1" demo_rng] BernoulliBandit_init_spec[of 0 demo_rng]
    BernoulliBandit_init_spec[of 2 demo_rng] demo_floats_range
  by simp

text \<open>
  Against claim C4 as stated: the index \<open>-1\<close> is outside \<open>[0, K)\<close> for the two-armed
  bandit built from the sample generator, and \<^verbatim>\<open>step(-1)\<close> does not fail; numpy reads
  \<^verbatim>\<open>probs[-1]\<close> as the last arm and the call returns reward \<open>1\<close>.
\<close>

theorem step_negative_index:
  "BernoulliBandit_init 2 demo_rng = Inr (demo_bandit, demo_rng\<lparr>pos := 2\<rparr>) \<and>
   K demo_bandit = 2 \<and> (-1::int) < 0 \<and>
   step demo_bandit (-1) (demo_rng\<lparr>pos := 2\<rparr>) = Inr (1, demo_rng\<lparr>pos := 3\<rparr>)"
  by (simp add: demo_bandit_init demo_bandit_K)
    (simp add: step_def random_sample_def getitem_def demo_bandit_def demo_rng_def)

text \<open>
  Claim C4, amended. For a constructed environment with \<open>K\<close> arms, \<^verbatim>\<open>step(k)\<close> fails
  with \<^verbatim>\<open>IndexError\<close> exactly when \<open>k < -K\<close> or \<open>k \<ge> K\<close>;
  for \<open>0 \<le> k < K\<close> it returns \<open>1\<close> if the fresh draw is strictly less than
  \<open>probs[k]\<close> and \<open>0\<close> otherwise; and for \<open>-K \<le> k < 0\<close> it does the same with arm
  \<open>K + k\<close>, since the lookup is numpy's and there is no range check in the program.
\<close>

theorem step_index:
  assumes "BernoulliBandit_init k0 g0 = Inr (b, g1)"
  shows "(k < - int (K b) \<or> int (K b) \<le> k \<longrightarrow> step b k g = Inl IndexError) \<and>
     (0 \<le> k \<and> k < int (K b) \<longrightarrow>
        step b k g = Inr (if floats g (pos g) < probs b ! nat k then 1 else 0,
                          g\<lparr>pos := Suc (pos g)\<rparr>)) \<and>
     (- int (K b) \<le> k \<and> k < 0 \<longrightarrow>
        step b k g = Inr (if floats g (pos g) < probs b ! nat (int (K b) + k) then 1 else 0,
                          g\<lparr>pos := Suc (pos g)\<rparr>))"
proof -
  have "wf_bandit b" using assms BernoulliBandit_init_Inr by blast
  then have "K b = length (probs b)" by (simp add: wf_bandit_def)
  then show ?thesis by (auto simp: step_def random_sample_def getitem_def)
qed

theorem step_index_witness:
  "BernoulliBandit_init 2 demo_rng = Inr (demo_bandit, demo_rng\<lparr>pos := 2\<rparr>) \<and>
   int (K demo_bandit) \<le> 2 \<and> step demo_bandit 2 (demo_rng\<lparr>pos := 2\<rparr>) = Inl IndexError \<and>
   (-3::int) < - int (K demo_bandit) \<and> step demo_bandit (-3) (demo_rng\<lparr>pos := 2\<rparr>) = Inl IndexError \<and>
   (0::int) \<le> 0 \<and> 0 < int (K demo_bandit) \<and>
   step demo_bandit 0 (demo_rng\<lparr>pos := 2\<rparr>) = Inr (1, demo_rng\<lparr>pos := 3\<rparr>) \<and>
   - int (K demo_bandit) \<le> -2 \<and> (-2::int) < 0 \<and>
   step demo_bandit (-2) (demo_rng\<lparr>pos := 2\<rparr>) = Inr (1, demo_rng\<lparr>pos := 3\<rparr>)"
  using step_index[OF demo_bandit_init, of 2 "demo_rng\<lparr>pos := 2\<rparr>"]
    step_index[OF demo_bandit_init, of "-3" "demo_rng\<lparr>pos := 2\<rparr>"]
    step_index[OF demo_bandit_init, of 0 "demo_rng\<lparr>pos := 2\<rparr>"]
    step_index[OF demo_bandit_init, of "-2" "demo_rng\<lparr>pos := 2\<rparr>"]
  by (simp add: demo_bandit_init demo_bandit_K)
    (simp add: demo_bandit_def demo_rng_def)

subsection \<open>The upper confidence bound\<close>

text \<open>
  Claim C8. With a non-negative \<open>coef\<close> and a round counter of at least \<open>1\<close>, the score of
  an arm does not increase with its own pull count, the estimate and the counter held
  fixed: for \<open>c1 < c2\<close> the score at \<open>c2\<close> is at most the score at \<open>c1\<close>.
\<close>

theorem ucb_score_antimono:
  assumes "0 \<le> cf" "1 \<le> t" "c1 < c2"
  shows "ucb_score cf t e c2 \<le> ucb_score cf t e c1"
proof -
  have l: "0 \<le> ln (real t)" using assms(2) by simp
  have "ln (real t) / (2 * (real c2 + 1)) \<le> ln (real t) / (2 * (real c1 + 1))"
    using l assms(3) by (intro divide_left_mono) simp_all
  then have "sqrt (ln (real t) / (2 * (real c2 + 1))) \<le> sqrt (ln (real t) / (2 * (real c1 + 1)))"
    by simp
  then have "cf * sqrt (ln (real t) / (2 * (real c2 + 1))) \<le>
             cf * sqrt (ln (real t) / (2 * (real c1 + 1)))"
    using assms(1) by (rule mult_left_mono)
  then show ?thesis by (simp add: ucb_score_def)
qed

theorem ucb_score_antimono_witness:
  "(0::real) \<le> 1 \<and> (1::nat) \<le> 10 \<and> (0::nat) < 3 \<and>
   ucb_score 1 10 (1 / 2) 3 \<le> ucb_score 1 10 (1 / 2) 0"
  using ucb_score_antimono[of 1 10 0 3 "1 / 2"] by simp

end
